theory Spec2Isabelle
  imports Main "HOL-Library.Word"
begin

unbundle bit_operations_syntax

section \<open>MegaHash.h: types and constants\<close>

text \<open>
  The fixed-width integers of \<^verbatim>\<open>stdint.h\<close> are words; \<^verbatim>\<open>unsigned char\<close> is a
  byte. \<^verbatim>\<open>BH_KLEN_T\<close> and \<^verbatim>\<open>BH_LEN_T\<close> are the macros for the key-length and the
  value-length type.
\<close>

type_synonym uint8_t = "8 word"
type_synonym uint16_t = "16 word"
type_synonym uint32_t = "32 word"
type_synonym uint64_t = "64 word"

type_synonym BH_KLEN_T = uint16_t
type_synonym BH_LEN_T = uint32_t

definition BH_KLEN_SIZE :: nat where
  "BH_KLEN_SIZE = 2"

definition BH_LEN_SIZE :: nat where
  "BH_LEN_SIZE = 4"

definition BH_DIGEST_SIZE :: nat where
  "BH_DIGEST_SIZE = 8"

definition BH_INDEX_SIZE :: nat where
  "BH_INDEX_SIZE = 16"

definition BH_ERR :: uint8_t where
  "BH_ERR = 0"

definition BH_OK :: uint8_t where
  "BH_OK = 1"

definition BH_ADD :: uint8_t where
  "BH_ADD = 1"

definition BH_REPLACE :: uint8_t where
  "BH_REPLACE = 2"

text \<open>The signatures \<^verbatim>\<open>'I'\<close> and \<^verbatim>\<open>'B'\<close> as their character codes.\<close>

definition BH_SIG_INDEX :: uint8_t where
  "BH_SIG_INDEX = 73"

definition BH_SIG_BUCKET :: uint8_t where
  "BH_SIG_BUCKET = 66"

section \<open>Bytes in memory\<close>

text \<open>
  A pointer \<^verbatim>\<open>unsigned char *p\<close> is modelled by the bytes of its allocation from \<^verbatim>\<open>p\<close>
  on: \<^verbatim>\<open>p[i]\<close> is the \<open>i\<close>-th element and \<^verbatim>\<open>p + n\<close> drops \<open>n\<close> bytes. Reading
  past the end of the allocation is undefined behaviour in C; every read below returns
  \<open>None\<close> there.

  The header reads and writes \<^verbatim>\<open>uint16_t\<close> and \<^verbatim>\<open>uint32_t\<close> values through casts of
  byte pointers, so the result depends on the byte order of the machine, which is a
  parameter of the model. Alignment is not modelled.
\<close>

datatype endian = LittleEndian | BigEndian

definition le_bytes :: "nat \<Rightarrow> 'a::len word \<Rightarrow> uint8_t list" where
  "le_bytes n w = map (\<lambda>i. ucast (drop_bit (8 * i) w)) [0..<n]"

definition le_value :: "uint8_t list \<Rightarrow> 'a::len word" where
  "le_value bs = foldr (\<lambda>b acc. ucast b OR push_bit 8 acc) bs 0"

definition object_bytes :: "endian \<Rightarrow> nat \<Rightarrow> 'a::len word \<Rightarrow> uint8_t list" where
  "object_bytes e n w = (case e of LittleEndian \<Rightarrow> le_bytes n w | BigEndian \<Rightarrow> rev (le_bytes n w))"

definition object_value :: "endian \<Rightarrow> uint8_t list \<Rightarrow> 'a::len word" where
  "object_value e bs = (case e of LittleEndian \<Rightarrow> le_value bs | BigEndian \<Rightarrow> le_value (rev bs))"

definition ptr_add :: "uint8_t list \<Rightarrow> nat \<Rightarrow> uint8_t list" where
  "ptr_add p n = drop n p"

definition load :: "endian \<Rightarrow> nat \<Rightarrow> uint8_t list \<Rightarrow> 'a::len word option" where
  "load e n p = (if length p < n then None else Some (object_value e (take n p)))"

definition poke :: "endian \<Rightarrow> nat \<Rightarrow> 'a::len word \<Rightarrow> uint8_t list \<Rightarrow> uint8_t list" where
  "poke e n w p = object_bytes e n w @ drop n p"

text \<open>
  \<^verbatim>\<open>memcmp\<close> compares the first \<open>n\<close> bytes of both areas; its result is zero when they
  are equal, and has the sign of the difference of the first two bytes that differ.
\<close>

fun cmp_bytes :: "uint8_t list \<Rightarrow> uint8_t list \<Rightarrow> int" where
  "cmp_bytes (a # as) (b # bs) = (if a = b then cmp_bytes as bs else int (unat a) - int (unat b))"
| "cmp_bytes _ _ = 0"

definition memcmp :: "uint8_t list \<Rightarrow> uint8_t list \<Rightarrow> nat \<Rightarrow> int option" where
  "memcmp s1 s2 n =
     (if length s1 < n \<or> length s2 < n then None else Some (cmp_bytes (take n s1) (take n s2)))"

section \<open>Hash: the accessors of an entry's data\<close>

definition bucketGetKeyLength :: "endian \<Rightarrow> uint8_t list \<Rightarrow> BH_KLEN_T option" where
  "bucketGetKeyLength e bucketData = load e BH_KLEN_SIZE bucketData"

definition bucketGetKey :: "uint8_t list \<Rightarrow> uint8_t list" where
  "bucketGetKey bucketData = ptr_add bucketData BH_KLEN_SIZE"

definition bucketGetContentLength :: "endian \<Rightarrow> uint8_t list \<Rightarrow> BH_LEN_T option" where
  "bucketGetContentLength e bucketData =
     (case bucketGetKeyLength e bucketData of
        None \<Rightarrow> None
      | Some keyLength \<Rightarrow>
          (let tempCL = ptr_add bucketData (BH_KLEN_SIZE + unat keyLength)
           in load e BH_LEN_SIZE tempCL))"

definition bucketGetContent :: "endian \<Rightarrow> uint8_t list \<Rightarrow> uint8_t list option" where
  "bucketGetContent e bucketData =
     (case bucketGetKeyLength e bucketData of
        None \<Rightarrow> None
      | Some keyLength \<Rightarrow> Some (ptr_add bucketData (BH_KLEN_SIZE + unat keyLength + BH_LEN_SIZE)))"

definition bucketKeyEquals :: "endian \<Rightarrow> uint8_t list \<Rightarrow> uint8_t list \<Rightarrow> BH_KLEN_T \<Rightarrow> int option" where
  "bucketKeyEquals e bucketData key keyLength =
     (case bucketGetKeyLength e bucketData of
        None \<Rightarrow> None
      | Some bucketKeyLength \<Rightarrow>
          (let bucketKey = ptr_add bucketData BH_KLEN_SIZE
           in if keyLength \<noteq> bucketKeyLength then Some 0
              else (case memcmp key bucketKey (unat keyLength) of
                      None \<Rightarrow> None
                    | Some r \<Rightarrow> Some (if r = 0 then 1 else 0))))"

section \<open>Hash::digestKey\<close>

function digestKey_loop :: "uint8_t list \<Rightarrow> nat \<Rightarrow> nat \<Rightarrow> uint32_t \<Rightarrow> uint32_t" where
  "digestKey_loop key keyLength i hash =
     (if i < keyLength
      then digestKey_loop key keyLength (i + 1) ((push_bit 5 hash + hash) + ucast (key ! i))
      else hash)"
  by pat_completeness auto
termination
  by (relation "measure (\<lambda>(key, keyLength, i, hash). keyLength - i)") auto

declare digestKey_loop.simps [simp del]

definition digestKey :: "endian \<Rightarrow> uint8_t list \<Rightarrow> BH_KLEN_T \<Rightarrow> uint8_t list \<Rightarrow> uint8_t list option" where
  "digestKey e key keyLength digest =
     (if length key < unat keyLength \<or> length digest < BH_DIGEST_SIZE then None
      else
        (let hash = digestKey_loop key (unat keyLength) 0 5381;
             digest = poke e 4 hash digest;
             digest = digest[4 := (digest ! 0) mod 16];
             digest = digest[5 := (digest ! 1) mod 16];
             digest = digest[6 := (digest ! 2) mod 16];
             digest = digest[7 := (digest ! 3) mod 16];
             digest = digest[0 := (digest ! 0) div 16];
             digest = digest[1 := (digest ! 1) div 16];
             digest = digest[2 := (digest ! 2) div 16];
             digest = digest[3 := (digest ! 3) div 16]
         in Some digest))"

section \<open>The digest and the entry layout as the specification words them\<close>

text \<open>
  These definitions follow the specification, not the code: the rolling hash with the
  step \<open>hash * 33 + byte\<close>, the path of eight nibbles, and the layout of an entry.
  The theorems below compare the code with them.
\<close>

definition spec_hash :: "uint8_t list \<Rightarrow> uint32_t" where
  "spec_hash key = foldl (\<lambda>hash byte. hash * 33 + ucast byte) 5381 key"

definition spec_digest :: "endian \<Rightarrow> uint8_t list \<Rightarrow> uint8_t list" where
  "spec_digest e key =
     (let bs = object_bytes e 4 (spec_hash key)
      in map (\<lambda>b. drop_bit 4 b) bs @ map (\<lambda>b. take_bit 4 b) bs)"

definition entry_blob :: "endian \<Rightarrow> BH_KLEN_T \<Rightarrow> uint8_t list \<Rightarrow> BH_LEN_T \<Rightarrow> uint8_t list \<Rightarrow> uint8_t list" where
  "entry_blob e kl keyBytes vl valueBytes =
     object_bytes e BH_KLEN_SIZE kl @ keyBytes @ object_bytes e BH_LEN_SIZE vl @ valueBytes"

section \<open>Stats, Response, Tag, Index, Bucket and the constructors of Hash\<close>

record Stats =
  numKeys :: uint64_t
  indexSize :: uint64_t
  metaSize :: uint64_t
  dataSize :: uint64_t

definition Stats_new :: Stats where
  "Stats_new = \<lparr>numKeys = 0, indexSize = 0, metaSize = 0, dataSize = 0\<rparr>"

record Response =
  result :: uint8_t
  flags :: uint8_t
  content :: "uint8_t list option"
  contentLength :: BH_LEN_T

definition Response_new :: Response where
  "Response_new = \<lparr>result = 0, flags = 0, content = None, contentLength = 0\<rparr>"

datatype Bucket =
  Bucket (bucket_type: uint8_t) (bucket_flags: uint8_t) (bucket_data: "uint8_t list option")
    (bucket_next: "Bucket option")

datatype 'tag Index = Index (index_type: uint8_t) (index_data: "'tag option list")

datatype Tag = TagIndex "Tag Index" | TagBucket Bucket

function Index_loop :: "nat \<Rightarrow> 'tag option list \<Rightarrow> 'tag option list" where
  "Index_loop idx data =
     (if idx < BH_INDEX_SIZE then Index_loop (idx + 1) (data[idx := None]) else data)"
  by pat_completeness auto
termination
  by (relation "measure (\<lambda>(idx, data). BH_INDEX_SIZE - idx)") auto

declare Index_loop.simps [simp del]

definition Index_new :: "'tag option list \<Rightarrow> 'tag Index" where
  "Index_new uninit = Index BH_SIG_INDEX (Index_loop 0 uninit)"

definition Bucket_new :: Bucket where
  "Bucket_new = Bucket BH_SIG_BUCKET 0 None None"

record Hash =
  index :: "Tag Index"
  stats :: Stats
  maxBuckets :: uint8_t
  reindexScatter :: uint8_t

definition init :: "uint64_t \<Rightarrow> Tag option list \<Rightarrow> uint8_t \<Rightarrow> uint8_t \<Rightarrow> Hash" where
  "init sizeof_Index uninit mb rs =
     (let index' = Index_new uninit;
          stats' = Stats_new;
          stats' = stats'\<lparr>indexSize := indexSize stats' + sizeof_Index\<rparr>
      in \<lparr>index = index', stats = stats', maxBuckets = mb, reindexScatter = rs\<rparr>)"

definition Hash_new0 :: "uint64_t \<Rightarrow> Tag option list \<Rightarrow> Hash" where
  "Hash_new0 sizeof_Index uninit =
     (let mb = 16;
          rs = 1
      in init sizeof_Index uninit mb rs)"

definition Hash_new1 :: "uint64_t \<Rightarrow> Tag option list \<Rightarrow> uint8_t \<Rightarrow> Hash" where
  "Hash_new1 sizeof_Index uninit newMaxBuckets =
     (let mb = newMaxBuckets;
          mb = (if mb < 1 then 1 else mb);
          rs = 1
      in init sizeof_Index uninit mb rs)"

definition Hash_new2 :: "uint64_t \<Rightarrow> Tag option list \<Rightarrow> uint8_t \<Rightarrow> uint8_t \<Rightarrow> Hash" where
  "Hash_new2 sizeof_Index uninit newMaxBuckets newReindexScatter =
     (let mb = newMaxBuckets;
          mb = (if mb < 1 then 1 else mb);
          rs = newReindexScatter;
          rs = (if rs < 1 then 1 else rs);
          rs = (if uint mb + uint rs > 256 then 1 else rs)
      in init sizeof_Index uninit mb rs)"

section \<open>The result codes and the length parameters\<close>




section \<open>Hash::store and Hash::fetch, from the specification\<close>

text \<open>
  Modelled from the spec: the bodies of \<^verbatim>\<open>Hash::store\<close> and \<^verbatim>\<open>Hash::fetch\<close>, which
  MegaHash.h only declares. A chain (section 3: a singly linked list of entries colliding
  at one trie position) is read off the \<open>next\<close> links of the header's \<open>Bucket\<close> as the
  list of its entries in chain order, each detached from its successor.
\<close>

fun chain_list :: "Bucket option \<Rightarrow> Bucket list" where
  "chain_list None = []"
| "chain_list (Some (Bucket t f d nx)) = Bucket t f d None # chain_list nx"

text \<open>
  Modelled from the spec: the chain (section 3) whose entries are the given ones, linked
  in order through \<open>next\<close>; the inverse of \<open>chain_list\<close>. The body of \<^verbatim>\<open>Hash::store\<close>,
  which relinks entries, is not in the sources.
\<close>

fun list_chain :: "Bucket list \<Rightarrow> Bucket option" where
  "list_chain [] = None"
| "list_chain (b # bs) = Some (Bucket (bucket_type b) (bucket_flags b) (bucket_data b) (list_chain bs))"

text \<open>
  Modelled from the spec: the state of a slot (section 3: empty, nested branch or chain
  head) that holds the given chain: empty for no entry, else the head of the chain. The
  body of \<^verbatim>\<open>Hash::store\<close> is not in the sources.
\<close>

definition chain_tag :: "Bucket list \<Rightarrow> Tag option" where
  "chain_tag c = map_option TagBucket (list_chain c)"

text \<open>
  Modelled from the spec: the new entry of \<^verbatim>\<open>Hash::store\<close> (section 4.2: a new Entry with
  the given key, value and flags; section 3: its bytes laid out as
  \<open>[keyLength][keyBytes][valueLength][valueBytes]\<close>). The body of \<^verbatim>\<open>Hash::store\<close> is not
  in the sources. The key and the content are read from the caller's buffers, which must
  hold \<open>keyLength\<close> and \<open>contentLength\<close> bytes.
\<close>

definition new_entry ::
  "endian \<Rightarrow> uint8_t list \<Rightarrow> BH_KLEN_T \<Rightarrow> uint8_t list \<Rightarrow> BH_LEN_T \<Rightarrow> uint8_t \<Rightarrow> Bucket option" where
  "new_entry e key keyLength content' contentLength' flags' =
     (if length key < unat keyLength \<or> length content' < unat contentLength' then None
      else Some (Bucket (bucket_type Bucket_new) flags'
                  (Some (entry_blob e keyLength (take (unat keyLength) key)
                           contentLength' (take (unat contentLength') content')))
                  (bucket_next Bucket_new)))"

text \<open>
  Modelled from the spec: the scan of a chain in \<^verbatim>\<open>Hash::fetch\<close> (section 4.3 with 4.2:
  linearly scan for an entry whose key bytes equal the given key, exact length and
  content match), with the header's \<open>bucketKeyEquals\<close> as the comparison. The body of
  \<^verbatim>\<open>Hash::fetch\<close> is not in the sources. The result is the first matching entry, if any.
\<close>

fun chain_fetch :: "endian \<Rightarrow> Bucket list \<Rightarrow> uint8_t list \<Rightarrow> BH_KLEN_T \<Rightarrow> Bucket option option" where
  "chain_fetch e [] key keyLength = Some None"
| "chain_fetch e (b # bs) key keyLength =
     (case bucket_data b of
        None \<Rightarrow> None
      | Some d \<Rightarrow>
          (case bucketKeyEquals e d key keyLength of
             None \<Rightarrow> None
           | Some r \<Rightarrow> if r \<noteq> 0 then Some (Some b) else chain_fetch e bs key keyLength))"

text \<open>
  Modelled from the spec: the chain case of \<^verbatim>\<open>Hash::store\<close> (section 4.2), whose body is
  not in the sources. Found: the entry's value bytes and flags are replaced in place, and
  the entry as it was is returned with the chain. Not found: the new entry is appended to
  the chain.
\<close>

fun chain_store ::
  "endian \<Rightarrow> Bucket list \<Rightarrow> uint8_t list \<Rightarrow> BH_KLEN_T \<Rightarrow> Bucket \<Rightarrow> (Bucket list \<times> Bucket option) option" where
  "chain_store e [] key keyLength new = Some ([new], None)"
| "chain_store e (b # bs) key keyLength new =
     (case bucket_data b of
        None \<Rightarrow> None
      | Some d \<Rightarrow>
          (case bucketKeyEquals e d key keyLength of
             None \<Rightarrow> None
           | Some r \<Rightarrow>
               if r \<noteq> 0
               then Some (Bucket (bucket_type b) (bucket_flags new) (bucket_data new) None # bs, Some b)
               else (case chain_store e bs key keyLength new of
                       None \<Rightarrow> None
                     | Some (bs', old) \<Rightarrow> Some (b # bs', old))))"

text \<open>
  Modelled from the spec: the digest symbol of an entry at a depth, computed from the
  entry's own key with the header's \<open>digestKey\<close> (section 4.4: for every entry in the
  overlong chain, compute its digest symbol). The body of \<^verbatim>\<open>Hash::reindexBucket\<close> is not
  in the sources.
\<close>

definition entry_symbol :: "endian \<Rightarrow> nat \<Rightarrow> Bucket \<Rightarrow> nat option" where
  "entry_symbol e depth b =
     (case bucket_data b of
        None \<Rightarrow> None
      | Some d \<Rightarrow>
          (case bucketGetKeyLength e d of
             None \<Rightarrow> None
           | Some keyLength \<Rightarrow>
               (case digestKey e (bucketGetKey d) keyLength (replicate BH_DIGEST_SIZE 0) of
                  None \<Rightarrow> None
                | Some digest \<Rightarrow> Some (unat (digest ! depth)))))"

text \<open>
  Modelled from the spec: the redistribution of section 4.4, whose code
  (\<^verbatim>\<open>Hash::reindexBucket\<close>) is not in the sources: every entry of the overlong chain, in
  chain order, is moved to the end of the chain at the slot of its digest symbol.
\<close>

fun distribute :: "endian \<Rightarrow> nat \<Rightarrow> Bucket list \<Rightarrow> Bucket list list \<Rightarrow> Bucket list list option" where
  "distribute e depth [] slots = Some slots"
| "distribute e depth (b # bs) slots =
     (case entry_symbol e depth b of
        None \<Rightarrow> None
      | Some s \<Rightarrow> distribute e depth bs (slots[s := slots ! s @ [b]]))"

text \<open>
  Modelled from the spec: reindexing (section 4.4), whose code is not in the sources. A new
  branch node is allocated and the entries of the chain are redistributed over its 16
  slots by their digest symbol; a sub-chain that itself exceeds \<open>maxChainLength\<close> is
  reindexed in turn while a digest symbol is left. \<open>depth\<close> is the number of digest
  symbols consumed so far (glossary), so the new node is indexed by the symbol
  \<open>digest[depth]\<close>, and reindexing stops when \<open>depth + 1\<close> reaches 8. The second component
  counts the branch nodes created, for the statistics.
\<close>

function reindex :: "endian \<Rightarrow> nat \<Rightarrow> nat \<Rightarrow> Bucket list \<Rightarrow> (Tag Index \<times> nat) option" where
  "reindex e mb depth chain =
     (case distribute e depth chain (replicate BH_INDEX_SIZE []) of
        None \<Rightarrow> None
      | Some slots \<Rightarrow>
          (let subs = map (\<lambda>c. if mb < length c \<and> depth + 1 < BH_DIGEST_SIZE
                                then (case reindex e mb (depth + 1) c of
                                        None \<Rightarrow> None
                                      | Some (ix, n) \<Rightarrow> Some (Some (TagIndex ix), n))
                                else Some (chain_tag c, 0)) slots
           in if None \<in> set subs then None
              else Some (Index BH_SIG_INDEX (map (fst \<circ> the) subs),
                         1 + sum_list (map (snd \<circ> the) subs))))"
  by pat_completeness auto
termination
  by (relation "measure (\<lambda>(e, mb, depth, chain). BH_DIGEST_SIZE - depth)") auto

declare reindex.simps [simp del]

text \<open>
  Modelled from the spec: what \<^verbatim>\<open>Hash::store\<close> (section 4.2, body not in the sources) did:
  it added an entry, creating so many branch nodes by reindexing, or it replaced the
  given entry.
\<close>

datatype outcome = Added nat | Replaced Bucket

text \<open>
  Modelled from the spec: the walk of \<^verbatim>\<open>Hash::store\<close> (section 4.2), whose body is not in
  the sources: from a branch node, consume the digest symbol of this depth and look at
  its slot. Empty: a new chain with the new entry. A chain: scan, replace or append, and
  reindex when the chain now exceeds \<open>maxChainLength\<close> and the depth reached is below 8.
  A nested branch: descend. The specification defines no behaviour for a branch met
  when all 8 symbols are consumed (its invariant excludes one), nor for a slot index
  outside the node: the result is \<open>None\<close> there.
\<close>

function store_walk ::
  "endian \<Rightarrow> nat \<Rightarrow> uint8_t list \<Rightarrow> uint8_t list \<Rightarrow> BH_KLEN_T \<Rightarrow> Bucket \<Rightarrow> nat \<Rightarrow> Tag Index
     \<Rightarrow> (Tag Index \<times> outcome) option" where
  "store_walk e mb digest key keyLength new depth ix =
     (let s = unat (digest ! depth);
          slots = index_data ix
      in if \<not> (depth < BH_DIGEST_SIZE \<and> depth < length digest \<and> s < length slots) then None
         else
           (case slots ! s of
              None \<Rightarrow> Some (Index (index_type ix) (slots[s := chain_tag [new]]), Added 0)
            | Some (TagBucket c) \<Rightarrow>
                (case chain_store e (chain_list (Some c)) key keyLength new of
                   None \<Rightarrow> None
                 | Some (c', Some old) \<Rightarrow>
                     Some (Index (index_type ix) (slots[s := chain_tag c']), Replaced old)
                 | Some (c', None) \<Rightarrow>
                     if mb < length c' \<and> depth + 1 < BH_DIGEST_SIZE
                     then (case reindex e mb (depth + 1) c' of
                             None \<Rightarrow> None
                           | Some (ix', n) \<Rightarrow>
                               Some (Index (index_type ix) (slots[s := Some (TagIndex ix')]), Added n))
                     else Some (Index (index_type ix) (slots[s := chain_tag c']), Added 0))
            | Some (TagIndex sub) \<Rightarrow>
                if depth + 1 < BH_DIGEST_SIZE
                then (case store_walk e mb digest key keyLength new (depth + 1) sub of
                        None \<Rightarrow> None
                      | Some (sub', out) \<Rightarrow>
                          Some (Index (index_type ix) (slots[s := Some (TagIndex sub')]), out))
                else None))"
  by pat_completeness auto
termination
  by (relation "measure (\<lambda>(e, mb, digest, key, keyLength, new, depth, ix). BH_DIGEST_SIZE - depth)") auto

declare store_walk.simps [simp del]

text \<open>
  Modelled from the spec: the walk of \<^verbatim>\<open>Hash::fetch\<close> (section 4.3: walks the digest path
  identically to store, but performs no mutation), whose body is not in the sources.
\<close>

function fetch_walk ::
  "endian \<Rightarrow> uint8_t list \<Rightarrow> uint8_t list \<Rightarrow> BH_KLEN_T \<Rightarrow> nat \<Rightarrow> Tag Index \<Rightarrow> Bucket option option" where
  "fetch_walk e digest key keyLength depth ix =
     (let s = unat (digest ! depth);
          slots = index_data ix
      in if \<not> (depth < BH_DIGEST_SIZE \<and> depth < length digest \<and> s < length slots) then None
         else
           (case slots ! s of
              None \<Rightarrow> Some None
            | Some (TagBucket c) \<Rightarrow> chain_fetch e (chain_list (Some c)) key keyLength
            | Some (TagIndex sub) \<Rightarrow>
                if depth + 1 < BH_DIGEST_SIZE
                then fetch_walk e digest key keyLength (depth + 1) sub
                else None))"
  by pat_completeness auto
termination
  by (relation "measure (\<lambda>(e, digest, key, keyLength, depth, ix). BH_DIGEST_SIZE - depth)") auto

declare fetch_walk.simps [simp del]

text \<open>
  Modelled from the spec: \<^verbatim>\<open>Hash::store\<close> (section 4.2), declared in MegaHash.h with this
  signature but defined outside the sources. It computes the digest, builds the entry,
  walks the trie, and updates the statistics: on an add one key more, the payload bytes
  (key and value), the entry overhead, and one branch node's size for each node
  reindexing created; on a replace the difference of the value lengths. The result
  carries the status (added or replaced), the flags and the length (section 6).
  \<open>sizeof_Index\<close> and \<open>entry_overhead\<close> are the sizes of a branch node and of an entry's
  fixed part on the machine. Allocation is assumed to succeed.
\<close>

definition store ::
  "endian \<Rightarrow> uint64_t \<Rightarrow> uint64_t \<Rightarrow> Hash \<Rightarrow> uint8_t list \<Rightarrow> BH_KLEN_T \<Rightarrow> uint8_t list \<Rightarrow> BH_LEN_T
     \<Rightarrow> uint8_t \<Rightarrow> (Hash \<times> Response) option" where
  "store e sizeof_Index entry_overhead h key keyLength content' contentLength' flags' =
     (case digestKey e key keyLength (replicate BH_DIGEST_SIZE 0) of
        None \<Rightarrow> None
      | Some digest \<Rightarrow>
          (case new_entry e key keyLength content' contentLength' flags' of
             None \<Rightarrow> None
           | Some new \<Rightarrow>
               (case store_walk e (unat (maxBuckets h)) digest key keyLength new 0 (index h) of
                  None \<Rightarrow> None
                | Some (ix, Added n) \<Rightarrow>
                    Some (h\<lparr>index := ix,
                            stats := (stats h)\<lparr>
                              numKeys := numKeys (stats h) + 1,
                              indexSize := indexSize (stats h) + word_of_nat n * sizeof_Index,
                              metaSize := metaSize (stats h) + entry_overhead,
                              dataSize := dataSize (stats h) + ucast keyLength + ucast contentLength'\<rparr>\<rparr>,
                          Response_new\<lparr>result := BH_ADD, flags := flags',
                                        contentLength := contentLength'\<rparr>)
                | Some (ix, Replaced old) \<Rightarrow>
                    (case bucket_data old of
                       None \<Rightarrow> None
                     | Some d \<Rightarrow>
                         (case bucketGetContentLength e d of
                            None \<Rightarrow> None
                          | Some oldLength \<Rightarrow>
                              Some (h\<lparr>index := ix,
                                      stats := (stats h)\<lparr>
                                        dataSize := dataSize (stats h) + ucast contentLength'
                                                      - ucast oldLength\<rparr>\<rparr>,
                                    Response_new\<lparr>result := BH_REPLACE, flags := flags',
                                                  contentLength := contentLength'\<rparr>))))))"

text \<open>
  Modelled from the spec: \<^verbatim>\<open>Hash::fetch\<close> (section 4.3), declared in MegaHash.h but defined
  outside the sources. A matching entry gives the status ok, the entry's flags, a
  reference to its value bytes inside the entry and their length (read with the header's
  accessors); no match gives the status error, a null reference and the length 0.
\<close>

definition fetch :: "endian \<Rightarrow> Hash \<Rightarrow> uint8_t list \<Rightarrow> BH_KLEN_T \<Rightarrow> Response option" where
  "fetch e h key keyLength =
     (case digestKey e key keyLength (replicate BH_DIGEST_SIZE 0) of
        None \<Rightarrow> None
      | Some digest \<Rightarrow>
          (case fetch_walk e digest key keyLength 0 (index h) of
             None \<Rightarrow> None
           | Some None \<Rightarrow> Some (Response_new\<lparr>result := BH_ERR\<rparr>)
           | Some (Some b) \<Rightarrow>
               (case bucket_data b of
                  None \<Rightarrow> None
                | Some d \<Rightarrow>
                    (case bucketGetContent e d of
                       None \<Rightarrow> None
                     | Some c \<Rightarrow>
                         (case bucketGetContentLength e d of
                            None \<Rightarrow> None
                          | Some len \<Rightarrow>
                              Some \<lparr>result = BH_OK, flags = bucket_flags b, content = Some c,
                                    contentLength = len\<rparr>)))))"

section \<open>The invariant of a table\<close>

text \<open>
  An entry is well formed when its data can be read: it holds its two length fields and
  as many key and value bytes as they say. The entries \<open>new_entry\<close> builds are of this form.
\<close>

definition wf_entry :: "endian \<Rightarrow> Bucket \<Rightarrow> bool" where
  "wf_entry e b =
     (case bucket_data b of
        None \<Rightarrow> False
      | Some d \<Rightarrow>
          (case bucketGetKeyLength e d of
             None \<Rightarrow> False
           | Some kl \<Rightarrow>
               (case bucketGetContentLength e d of
                  None \<Rightarrow> False
                | Some vl \<Rightarrow> BH_KLEN_SIZE + unat kl + BH_LEN_SIZE + unat vl \<le> length d)))"

text \<open>
  A branch node at a depth is well formed when it has its 16 slots, every chain in them
  holds well-formed entries only, and every nested branch node is well formed at the next
  depth, which is below 8 (section 3: at depth 8 there is no further branch).
\<close>

function wf_index :: "endian \<Rightarrow> nat \<Rightarrow> Tag Index \<Rightarrow> bool" where
  "wf_index e depth ix =
     (depth < BH_DIGEST_SIZE \<and> length (index_data ix) = BH_INDEX_SIZE \<and>
      (\<forall>slot \<in> set (index_data ix).
         case slot of
           None \<Rightarrow> True
         | Some (TagBucket c) \<Rightarrow> (\<forall>b \<in> set (chain_list (Some c)). wf_entry e b)
         | Some (TagIndex sub) \<Rightarrow>
             if depth + 1 < BH_DIGEST_SIZE then wf_index e (depth + 1) sub else False))"
  by pat_completeness auto
termination
  by (relation "measure (\<lambda>(e, depth, ix). BH_DIGEST_SIZE - depth)") auto

declare wf_index.simps [simp del]

text \<open>
  The invariant of a table: its root is a well-formed branch node of depth 0. The
  constructors establish it and \<open>store\<close> keeps it (\<open>wf_Hash_new\<close>, \<open>store_preserves_wf\<close>).
\<close>

definition wf_Hash :: "endian \<Rightarrow> Hash \<Rightarrow> bool" where
  "wf_Hash e h = wf_index e 0 (index h)"

text \<open>
  For the proofs: the key bytes of an entry, or nothing when its data cannot be read.
\<close>

definition entry_key :: "endian \<Rightarrow> Bucket \<Rightarrow> uint8_t list" where
  "entry_key e b =
     (case bucket_data b of
        None \<Rightarrow> []
      | Some d \<Rightarrow>
          (case bucketGetKeyLength e d of
             None \<Rightarrow> []
           | Some kl \<Rightarrow> take (unat kl) (bucketGetKey d)))"

text \<open>
  For the proofs: a well-formed entry that is detached from any chain.
\<close>

definition ok_entry :: "endian \<Rightarrow> Bucket \<Rightarrow> bool" where
  "ok_entry e b \<longleftrightarrow> wf_entry e b \<and> bucket_next b = None"

text \<open>
  For the proofs: the digest symbol of an entry's key at a depth, by the specification's
  digest.
\<close>

definition key_symbol :: "endian \<Rightarrow> nat \<Rightarrow> Bucket \<Rightarrow> nat" where
  "key_symbol e depth b = unat (spec_digest e (entry_key e b) ! depth)"

text \<open>
  For the proofs: what \<open>fetch_walk\<close> does with the slot it has selected.
\<close>

definition slot_fetch ::
  "endian \<Rightarrow> uint8_t list \<Rightarrow> uint8_t list \<Rightarrow> BH_KLEN_T \<Rightarrow> nat \<Rightarrow> Tag option \<Rightarrow> Bucket option option" where
  "slot_fetch e digest key keyLength depth slot =
     (case slot of
        None \<Rightarrow> Some None
      | Some (TagBucket c) \<Rightarrow> chain_fetch e (chain_list (Some c)) key keyLength
      | Some (TagIndex sub) \<Rightarrow>
          if depth + 1 < BH_DIGEST_SIZE
          then fetch_walk e digest key keyLength (depth + 1) sub
          else None)"

text \<open>
  For the proofs: what \<open>wf_index\<close> asks of one slot.
\<close>

definition slot_wf :: "endian \<Rightarrow> nat \<Rightarrow> Tag option \<Rightarrow> bool" where
  "slot_wf e depth slot =
     (case slot of
        None \<Rightarrow> True
      | Some (TagBucket c) \<Rightarrow> (\<forall>b \<in> set (chain_list (Some c)). wf_entry e b)
      | Some (TagIndex sub) \<Rightarrow>
          if depth + 1 < BH_DIGEST_SIZE then wf_index e (depth + 1) sub else False)"

text \<open>
  For the proofs: what \<open>store_walk\<close> does with the slot it has selected; the pair is the
  slot's new state and the outcome.
\<close>

definition slot_store ::
  "endian \<Rightarrow> nat \<Rightarrow> uint8_t list \<Rightarrow> uint8_t list \<Rightarrow> BH_KLEN_T \<Rightarrow> Bucket \<Rightarrow> nat \<Rightarrow> Tag option
     \<Rightarrow> (Tag option \<times> outcome) option" where
  "slot_store e mb digest key keyLength new depth slot =
     (case slot of
        None \<Rightarrow> Some (chain_tag [new], Added 0)
      | Some (TagBucket c) \<Rightarrow>
          (case chain_store e (chain_list (Some c)) key keyLength new of
             None \<Rightarrow> None
           | Some (c', Some old) \<Rightarrow> Some (chain_tag c', Replaced old)
           | Some (c', None) \<Rightarrow>
               if mb < length c' \<and> depth + 1 < BH_DIGEST_SIZE
               then (case reindex e mb (depth + 1) c' of
                       None \<Rightarrow> None
                     | Some (ix', n) \<Rightarrow> Some (Some (TagIndex ix'), Added n))
               else Some (chain_tag c', Added 0))
      | Some (TagIndex sub) \<Rightarrow>
          if depth + 1 < BH_DIGEST_SIZE
          then (case store_walk e mb digest key keyLength new (depth + 1) sub of
                  None \<Rightarrow> None
                | Some (sub', out) \<Rightarrow> Some (Some (TagIndex sub'), out))
          else None)"

section \<open>Bytes in memory: lemmas\<close>

lemma length_le_bytes [simp]: "length (le_bytes n w) = n"
  by (simp add: le_bytes_def)

lemma length_object_bytes [simp]: "length (object_bytes e n w) = n"
  by (cases e) (simp_all add: object_bytes_def)

lemma upt_2: "[0..<2] = [0, 1]" and upt_4: "[0..<4] = [0, 1, 2, 3]"
  by (simp_all add: upt_rec)

lemma le_bytes_2: "le_bytes 2 w = [ucast w, ucast (drop_bit 8 w)]"
  by (simp add: le_bytes_def upt_2)

lemma le_bytes_4:
  "le_bytes 4 w = [ucast w, ucast (drop_bit 8 w), ucast (drop_bit 16 w), ucast (drop_bit 24 w)]"
  by (simp add: le_bytes_def upt_4)

lemma le_value_bytes16: "le_value (le_bytes 2 (w :: 16 word)) = w"
  unfolding le_bytes_2 le_value_def foldr.simps o_apply
  by (rule bit_word_eqI) (auto simp add: bit_simps)

lemma le_value_bytes32: "le_value (le_bytes 4 (w :: 32 word)) = w"
  unfolding le_bytes_4 le_value_def foldr.simps o_apply
  apply (rule bit_word_eqI)
  subgoal for n
    by (cases "n < 8"; cases "n < 16"; cases "n < 24"; auto simp add: bit_simps)
  done

lemma object_value_bytes16 [simp]: "object_value e (object_bytes e 2 (w :: 16 word)) = w"
  by (cases e) (simp_all add: object_value_def object_bytes_def le_value_bytes16)

lemma object_value_bytes32 [simp]: "object_value e (object_bytes e 4 (w :: 32 word)) = w"
  by (cases e) (simp_all add: object_value_def object_bytes_def le_value_bytes32)

lemma step33: "(push_bit 5 hash + hash) + b = hash * 33 + (b :: 32 word)"
  by (simp add: push_bit_eq_mult)

lemma digestKey_loop_foldl:
  "i \<le> n \<Longrightarrow> n \<le> length key \<Longrightarrow>
   digestKey_loop key n i hash = foldl (\<lambda>hash byte. hash * 33 + ucast byte) hash (take (n - i) (drop i key))"
proof (induction key n i hash rule: digestKey_loop.induct)
  case (1 key keyLength i hash)
  show ?case
  proof (cases "i < keyLength")
    case True
    then have "take (keyLength - i) (drop i key) = key ! i # take (keyLength - (i + 1)) (drop (i + 1) key)"
      using 1(3) by (metis Cons_nth_drop_Suc Suc_diff_Suc Suc_eq_plus1 less_le_trans take_Suc_Cons)
    with True 1 show ?thesis by (subst digestKey_loop.simps) (simp add: step33)
  next
    case False
    with 1(2) show ?thesis by (subst digestKey_loop.simps) simp
  qed
qed

section \<open>digestKey computes the digest of the specification\<close>

lemma unat_klen: "n \<le> 65535 \<Longrightarrow> unat (word_of_nat n :: BH_KLEN_T) = n"
  by (simp add: unat_of_nat)

lemma digestKey_loop_take:
  "n \<le> length key \<Longrightarrow> digestKey_loop key n 0 5381 = spec_hash (take n key)"
  using digestKey_loop_foldl [of 0 n key 5381] by (simp add: spec_hash_def)

lemma list4: "length (bs :: 'a list) = 4 \<Longrightarrow> \<exists>a b c d. bs = [a, b, c, d]"
proof -
  assume "length bs = 4"
  then have "length bs = Suc (Suc (Suc (Suc 0)))" by simp
  then show ?thesis by (auto simp add: length_Suc_conv)
qed

lemma drop4_of_8:
  assumes "8 \<le> length (xs :: 'a list)"
  shows "\<exists>a b c d. drop 4 xs = [a, b, c, d] @ drop 8 xs"
proof -
  have "length (take 4 (drop 4 xs)) = 4" using assms by simp
  then obtain a b c d where t: "take 4 (drop 4 xs) = [a, b, c, d]" using list4 by blast
  have "drop 4 xs = take 4 (drop 4 xs) @ drop 4 (drop 4 xs)"
    by (rule append_take_drop_id [symmetric])
  also have "drop 4 (drop 4 xs) = drop 8 xs" by simp
  finally show ?thesis using t by simp
qed

lemma digest_updates:
  "(let digest = [a, b, c, d, a', b', c', d'] @ rest;
        digest = digest[4 := f (digest ! 0)];
        digest = digest[5 := f (digest ! 1)];
        digest = digest[6 := f (digest ! 2)];
        digest = digest[7 := f (digest ! 3)];
        digest = digest[0 := g (digest ! 0)];
        digest = digest[1 := g (digest ! 1)];
        digest = digest[2 := g (digest ! 2)];
        digest = digest[3 := g (digest ! 3)]
    in digest) = [g a, g b, g c, g d, f a, f b, f c, f d] @ rest"
  by (simp add: Let_def eval_nat_numeral)

lemma nibbles: "(b :: uint8_t) div 16 = drop_bit 4 b" "b mod 16 = take_bit 4 b"
  by (simp_all add: drop_bit_eq_div take_bit_eq_mod)

lemma digestKey_general:
  assumes "unat keyLength \<le> length key" and "BH_DIGEST_SIZE \<le> length digest"
  shows "digestKey e key keyLength digest =
           Some (spec_digest e (take (unat keyLength) key) @ drop BH_DIGEST_SIZE digest)"
proof -
  let ?h = "spec_hash (take (unat keyLength) key)"
  obtain a b c d where bs: "object_bytes e 4 ?h = [a, b, c, d]"
    using list4 [of "object_bytes e 4 ?h"] by auto
  obtain a' b' c' d' where ds: "drop 4 digest = [a', b', c', d'] @ drop 8 digest"
    using drop4_of_8 [of digest] assms(2) by (auto simp: BH_DIGEST_SIZE_def)
  have p: "poke e 4 ?h digest = [a, b, c, d, a', b', c', d'] @ drop 8 digest"
    by (simp add: poke_def bs ds)
  have "digestKey e key keyLength digest =
          Some (let digest = [a, b, c, d, a', b', c', d'] @ drop 8 digest;
        digest = digest[4 := (digest ! 0) mod 16];
        digest = digest[5 := (digest ! 1) mod 16];
        digest = digest[6 := (digest ! 2) mod 16];
        digest = digest[7 := (digest ! 3) mod 16];
        digest = digest[0 := (digest ! 0) div 16];
        digest = digest[1 := (digest ! 1) div 16];
        digest = digest[2 := (digest ! 2) div 16];
        digest = digest[3 := (digest ! 3) div 16]
    in digest)"
    using assms unfolding digestKey_def
    by (simp only: digestKey_loop_take p not_less [symmetric] if_False HOL.simp_thms Let_def)
  also have "\<dots> = Some ([a div 16, b div 16, c div 16, d div 16, a mod 16, b mod 16, c mod 16, d mod 16]
                    @ drop 8 digest)"
    by (simp only: digest_updates [of a b c d a' b' c' d' "drop 8 digest" "\<lambda>x. x mod 16" "\<lambda>x. x div 16"])
  also have "\<dots> = Some (spec_digest e (take (unat keyLength) key) @ drop BH_DIGEST_SIZE digest)"
    by (simp only: spec_digest_def bs Let_def nibbles list.map append.simps BH_DIGEST_SIZE_def)
  finally show ?thesis .
qed

text \<open>
  Claim C2. For every key of 0 to 65535 bytes, \<open>digestKey\<close> returns, and the eight symbols
  it leaves in the digest buffer are those of \<open>spec_digest\<close>: the rolling hash from the
  seed 5381 with the step \<open>hash * 33 + byte\<close>, its four bytes as they lie in memory, the
  high nibbles of bytes 0 to 3 first and their low nibbles after. The rest of the buffer
  is left as it was.
\<close>

theorem digestKey_refines_spec:
  assumes "length key \<le> 65535" and "BH_DIGEST_SIZE \<le> length digest"
  shows "digestKey e key (word_of_nat (length key)) digest =
           Some (spec_digest e key @ drop BH_DIGEST_SIZE digest)"
  using digestKey_general [of "word_of_nat (length key)" key digest e] assms
  by (simp add: unat_klen)

lemma spec_digest_a: "spec_digest LittleEndian [97] = [0, 11, 0, 0, 6, 6, 2, 0]"
  by (simp add: spec_digest_def spec_hash_def object_bytes_def le_bytes_4 Let_def
      drop_bit_eq_div take_bit_eq_mod)

theorem digestKey_refines_spec_witness:
  "length [97 :: uint8_t] \<le> 65535 \<and> BH_DIGEST_SIZE \<le> length [0, 0, 0, 0, 0, 0, 0, 0 :: uint8_t] \<and>
   digestKey LittleEndian [97] 1 [0, 0, 0, 0, 0, 0, 0, 0] = Some [0, 11, 0, 0, 6, 6, 2, 0]"
  using digestKey_refines_spec [of "[97]" "[0, 0, 0, 0, 0, 0, 0, 0]" LittleEndian]
  by (simp add: BH_DIGEST_SIZE_def spec_digest_a)

lemma nibble_bounds: "unat (drop_bit 4 (b :: uint8_t)) < 16" "unat (take_bit 4 b) < 16"
proof -
  have "unat b < 256" using unsigned_less [of b, where 'a = nat] by simp
  then have "unat b div 16 < 16" by simp
  then show "unat (drop_bit 4 b) < 16" by (simp add: drop_bit_eq_div unat_div)
  show "unat (take_bit 4 b) < 16" by (simp add: take_bit_eq_mod unat_mod)
qed

lemma spec_digest_length: "length (spec_digest e key) = 8"
  by (simp add: spec_digest_def Let_def)

lemma spec_digest_range: "x \<in> set (spec_digest e key) \<Longrightarrow> unat x < 16"
  by (auto simp add: spec_digest_def Let_def nibble_bounds)

text \<open>
  Claim C8. Whenever the key holds \<open>keyLength\<close> bytes and the digest buffer eight,
  \<open>digestKey\<close> returns and each of the eight symbols is below 16, the number of slots of
  an \<open>Index\<close>.
\<close>

theorem digestKey_symbols_in_range:
  assumes "unat keyLength \<le> length key" and "BH_DIGEST_SIZE \<le> length digest"
  shows "\<exists>d. digestKey e key keyLength digest = Some d \<and> length d = length digest \<and>
           (\<forall>i < BH_DIGEST_SIZE. unat (d ! i) < BH_INDEX_SIZE)"
proof -
  let ?s = "spec_digest e (take (unat keyLength) key)"
  have "\<forall>i < BH_DIGEST_SIZE. unat ((?s @ drop BH_DIGEST_SIZE digest) ! i) < BH_INDEX_SIZE"
    using spec_digest_range [of _ e "take (unat keyLength) key"]
    by (simp add: nth_append spec_digest_length BH_DIGEST_SIZE_def BH_INDEX_SIZE_def)
  then show ?thesis
    using digestKey_general [OF assms, of e] assms(2) by (simp add: spec_digest_length BH_DIGEST_SIZE_def)
qed

theorem digestKey_symbols_in_range_witness:
  "unat (2 :: BH_KLEN_T) \<le> length [104, 105 :: uint8_t] \<and>
   BH_DIGEST_SIZE \<le> length [0, 0, 0, 0, 0, 0, 0, 0 :: uint8_t] \<and>
   (\<exists>d. digestKey BigEndian [104, 105] 2 [0, 0, 0, 0, 0, 0, 0, 0] = Some d \<and>
        (\<forall>i < BH_DIGEST_SIZE. unat (d ! i) < BH_INDEX_SIZE))"
  using digestKey_symbols_in_range [of 2 "[104, 105]" "[0, 0, 0, 0, 0, 0, 0, 0]" BigEndian]
  by (auto simp add: BH_DIGEST_SIZE_def)

lemma spec_digest_empty:
  "spec_digest e [] = (case e of LittleEndian \<Rightarrow> [0, 1, 0, 0, 5, 5, 0, 0]
                          | BigEndian \<Rightarrow> [0, 0, 1, 0, 0, 0, 5, 5])"
  by (cases e) (simp_all add: spec_digest_def spec_hash_def object_bytes_def le_bytes_4 Let_def drop_bit_eq_div take_bit_eq_mod)

text \<open>
  Claim C10. With \<open>keyLength = 0\<close> the loop does not run and no byte of the key is read:
  the digest is the nibble decomposition of the seed 5381 (\<open>0x00001505\<close>), whatever
  the key pointer.
\<close>

theorem digestKey_empty_key:
  assumes "BH_DIGEST_SIZE \<le> length digest"
  shows "digestKey e key 0 digest =
           Some ((case e of LittleEndian \<Rightarrow> [0, 1, 0, 0, 5, 5, 0, 0]
                          | BigEndian \<Rightarrow> [0, 0, 1, 0, 0, 0, 5, 5]) @ drop BH_DIGEST_SIZE digest)"
  using digestKey_general [of 0 key digest e] assms by (simp add: spec_digest_empty)

theorem digestKey_empty_key_witness:
  "BH_DIGEST_SIZE \<le> length [9, 9, 9, 9, 9, 9, 9, 9, 7 :: uint8_t] \<and>
   digestKey LittleEndian [] 0 [9, 9, 9, 9, 9, 9, 9, 9, 7] = Some [0, 1, 0, 0, 5, 5, 0, 0, 7]"
  using digestKey_empty_key [of "[9, 9, 9, 9, 9, 9, 9, 9, 7]" LittleEndian "[]"]
  by (simp add: BH_DIGEST_SIZE_def)

section \<open>The accessors and the key comparison\<close>

lemma cmp_bytes_eq_0: "length xs = length ys \<Longrightarrow> cmp_bytes xs ys = 0 \<longleftrightarrow> xs = ys"
proof (induction xs ys rule: list_induct2)
  case Nil
  then show ?case by simp
next
  case (Cons x xs y ys)
  have "x \<noteq> y \<Longrightarrow> int (unat x) - int (unat y) \<noteq> 0"
    by (simp add: word_uint_eq_iff)
  with Cons show ?case by auto
qed

lemma memcmp_eq_0:
  "n \<le> length s1 \<Longrightarrow> n \<le> length s2 \<Longrightarrow>
   memcmp s1 s2 n = Some r \<Longrightarrow> r = 0 \<longleftrightarrow> take n s1 = take n s2"
  by (auto simp add: memcmp_def cmp_bytes_eq_0)

lemma blob_key_length:
  "bucketGetKeyLength e (entry_blob e kl keyBytes vl valueBytes @ rest) = Some kl"
  by (simp add: bucketGetKeyLength_def load_def entry_blob_def BH_KLEN_SIZE_def)

lemma blob_key:
  "bucketGetKey (entry_blob e kl keyBytes vl valueBytes @ rest) =
     keyBytes @ object_bytes e BH_LEN_SIZE vl @ valueBytes @ rest"
  by (simp add: bucketGetKey_def ptr_add_def entry_blob_def BH_KLEN_SIZE_def)

lemma blob_content_length:
  "length keyBytes = unat kl \<Longrightarrow>
   bucketGetContentLength e (entry_blob e kl keyBytes vl valueBytes @ rest) = Some vl"
  by (simp add: bucketGetContentLength_def blob_key_length)
     (simp add: load_def ptr_add_def entry_blob_def BH_KLEN_SIZE_def BH_LEN_SIZE_def)

lemma blob_content:
  "length keyBytes = unat kl \<Longrightarrow>
   bucketGetContent e (entry_blob e kl keyBytes vl valueBytes @ rest) = Some (valueBytes @ rest)"
  by (simp add: bucketGetContent_def blob_key_length)
     (simp add: ptr_add_def entry_blob_def BH_KLEN_SIZE_def BH_LEN_SIZE_def)

text \<open>
  Claim C6. On an entry laid out as \<open>[keyLength][keyBytes][valueLength][valueBytes]\<close>
  (followed by any bytes \<open>rest\<close>) the accessors give back the fields:
  \<open>bucketGetKeyLength\<close> the key length, \<open>bucketGetKey\<close> a pointer whose first \<open>kl\<close>
  bytes are the key, \<open>bucketGetContentLength\<close> the value length and \<open>bucketGetContent\<close>
  a pointer whose first \<open>vl\<close> bytes are the value.
\<close>

theorem bucket_accessors_roundtrip:
  assumes "length keyBytes = unat kl" and "length valueBytes = unat vl"
  shows "bucketGetKeyLength e (entry_blob e kl keyBytes vl valueBytes @ rest) = Some kl \<and>
         take (unat kl) (bucketGetKey (entry_blob e kl keyBytes vl valueBytes @ rest)) = keyBytes \<and>
         bucketGetContentLength e (entry_blob e kl keyBytes vl valueBytes @ rest) = Some vl \<and>
         bucketGetContent e (entry_blob e kl keyBytes vl valueBytes @ rest) = Some (valueBytes @ rest) \<and>
         take (unat vl) (valueBytes @ rest) = valueBytes"
  using assms by (simp add: blob_key_length blob_key blob_content_length blob_content)

lemma blob_a1: "entry_blob LittleEndian 1 [97] 1 [49] @ [] = [1, 0, 97, 1, 0, 0, 0, 49]"
  by (simp add: entry_blob_def object_bytes_def le_bytes_2 le_bytes_4 BH_KLEN_SIZE_def BH_LEN_SIZE_def)

theorem bucket_accessors_roundtrip_witness:
  "length [97 :: uint8_t] = unat (1 :: BH_KLEN_T) \<and> length [49 :: uint8_t] = unat (1 :: BH_LEN_T) \<and>
   bucketGetKeyLength LittleEndian [1, 0, 97, 1, 0, 0, 0, 49] = Some 1 \<and>
   take 1 (bucketGetKey [1, 0, 97, 1, 0, 0, 0, 49]) = [97] \<and>
   bucketGetContentLength LittleEndian [1, 0, 97, 1, 0, 0, 0, 49] = Some 1 \<and>
   bucketGetContent LittleEndian [1, 0, 97, 1, 0, 0, 0, 49] = Some [49]"
  using bucket_accessors_roundtrip [of "[97]" 1 "[49]" 1 LittleEndian "[]"]
  unfolding blob_a1 by simp

lemma blob_key_equals:
  assumes "length keyBytes = unat kl" and "unat keyLength \<le> length key"
  shows "bucketKeyEquals e (entry_blob e kl keyBytes vl valueBytes @ rest) key keyLength =
           Some (if keyLength = kl \<and> take (unat keyLength) key = keyBytes then 1 else 0)"
proof (cases "keyLength = kl")
  case False
  then show ?thesis by (simp add: bucketKeyEquals_def blob_key_length)
next
  case True
  let ?bk = "keyBytes @ object_bytes e BH_LEN_SIZE vl @ valueBytes @ rest"
  have bk: "ptr_add (entry_blob e kl keyBytes vl valueBytes @ rest) BH_KLEN_SIZE = ?bk"
    using blob_key [of e kl keyBytes vl valueBytes rest] by (simp add: bucketGetKey_def)
  have "memcmp key ?bk (unat kl) = Some (cmp_bytes (take (unat kl) key) keyBytes)"
    using assms True by (simp add: memcmp_def)
  moreover have "cmp_bytes (take (unat kl) key) keyBytes = 0 \<longleftrightarrow> take (unat kl) key = keyBytes"
    using assms True by (simp add: cmp_bytes_eq_0)
  ultimately show ?thesis
    using True by (simp add: bucketKeyEquals_def blob_key_length bk)
qed

text \<open>
  Claim C7. On a stored entry and a probe key of \<open>keyLength\<close> bytes, \<open>bucketKeyEquals\<close>
  returns a nonzero result exactly when the lengths are equal and the key bytes agree at
  every position, and 0 otherwise.
\<close>

theorem bucketKeyEquals_exact_match:
  assumes "length keyBytes = unat kl" and "length valueBytes = unat vl"
    and "unat keyLength \<le> length key"
  shows "\<exists>r. bucketKeyEquals e (entry_blob e kl keyBytes vl valueBytes @ rest) key keyLength = Some r \<and>
           (r \<noteq> 0 \<longleftrightarrow> keyLength = kl \<and> (\<forall>i < unat keyLength. key ! i = keyBytes ! i)) \<and>
           (r = 0 \<or> r = 1)"
proof -
  have "keyLength = kl \<Longrightarrow>
        take (unat keyLength) key = keyBytes \<longleftrightarrow> (\<forall>i < unat keyLength. key ! i = keyBytes ! i)"
    using assms by (auto simp add: list_eq_iff_nth_eq)
  then show ?thesis
    using blob_key_equals [OF assms(1) assms(3), of e vl valueBytes rest] by auto
qed

theorem bucketKeyEquals_exact_match_witness:
  "length [97 :: uint8_t] = unat (1 :: BH_KLEN_T) \<and> length [49 :: uint8_t] = unat (1 :: BH_LEN_T) \<and>
   unat (1 :: BH_KLEN_T) \<le> length [97 :: uint8_t] \<and>
   bucketKeyEquals LittleEndian [1, 0, 97, 1, 0, 0, 0, 49] [97] 1 = Some 1 \<and>
   bucketKeyEquals LittleEndian [1, 0, 97, 1, 0, 0, 0, 49] [98] 1 = Some 0"
  using bucketKeyEquals_exact_match [of "[97]" 1 "[49]" 1 1 "[97]" LittleEndian "[]"]
    bucketKeyEquals_exact_match [of "[97]" 1 "[49]" 1 1 "[98]" LittleEndian "[]"]
  unfolding blob_a1 by auto

section \<open>The constructors and the result codes\<close>

lemma Index_loop_eq:
  "idx \<le> BH_INDEX_SIZE \<Longrightarrow> length data = BH_INDEX_SIZE \<Longrightarrow>
   Index_loop idx data = take idx data @ replicate (BH_INDEX_SIZE - idx) None"
proof (induction idx data rule: Index_loop.induct)
  case (1 idx data)
  show ?case
  proof (cases "idx < BH_INDEX_SIZE")
    case True
    then have "Index_loop idx data = take (idx + 1) (data[idx := None]) @ replicate (BH_INDEX_SIZE - (idx + 1)) None"
      using 1 by (subst Index_loop.simps) simp
    also have "take (idx + 1) (data[idx := None]) = take idx data @ [None]"
      using True 1(3) by (simp add: take_Suc_conv_app_nth)
    also have "(take idx data @ [None]) @ replicate (BH_INDEX_SIZE - (idx + 1)) None
                 = take idx data @ replicate (Suc (BH_INDEX_SIZE - (idx + 1))) None"
      by simp
    also have "Suc (BH_INDEX_SIZE - (idx + 1)) = BH_INDEX_SIZE - idx"
      using True by simp
    finally show ?thesis .
  next
    case False
    with 1(2,3) show ?thesis by (subst Index_loop.simps) simp
  qed
qed

lemma Index_new_slots:
  "length uninit = BH_INDEX_SIZE \<Longrightarrow> Index_new uninit = Index BH_SIG_INDEX (replicate BH_INDEX_SIZE None)"
  by (simp add: Index_new_def Index_loop_eq)

text \<open>
  Claim C5, as stated, fails: the four result codes are not pairwise distinct, since
  \<open>BH_OK\<close> and \<open>BH_ADD\<close> are both 1.
\<close>

theorem status_codes_shared_value: "\<not> distinct [BH_ERR, BH_OK, BH_ADD, BH_REPLACE]"
  by (simp add: BH_OK_def BH_ADD_def)

text \<open>
  Claim C5, amended. The four result codes take three values: error is 0, ok is 1, added
  is 1 and replaced is 2. \<open>BH_OK\<close> and \<open>BH_ADD\<close> are the same value and every other pair
  of the four is distinct; so error, added and replaced are pairwise distinct, and so are
  error, ok and replaced.
\<close>

theorem status_codes_three_values:
  "BH_ERR = 0 \<and> BH_OK = 1 \<and> BH_ADD = 1 \<and> BH_REPLACE = 2 \<and>
   BH_OK = BH_ADD \<and>
   BH_ERR \<noteq> BH_OK \<and> BH_ERR \<noteq> BH_ADD \<and> BH_ERR \<noteq> BH_REPLACE \<and>
   BH_OK \<noteq> BH_REPLACE \<and> BH_ADD \<noteq> BH_REPLACE \<and>
   distinct [BH_ERR, BH_ADD, BH_REPLACE] \<and> distinct [BH_ERR, BH_OK, BH_REPLACE]"
  by (simp add: BH_ERR_def BH_OK_def BH_ADD_def BH_REPLACE_def)

lemma uint8_max: "uint (w :: uint8_t) \<le> 255"
  using uint_lt2p [of w] by simp

text \<open>
  Claim C3. After construction \<open>maxBuckets\<close> is 16 when not supplied and raised to 1 when
  supplied as 0; \<open>reindexScatter\<close> is 1 when not supplied, raised to 1 when supplied as 0,
  and reset to 1 when the sum with \<open>maxBuckets\<close> would exceed 256; so the sum never
  exceeds 256.
\<close>

theorem constructor_configuration:
  "maxBuckets (Hash_new0 sz u) = 16 \<and> reindexScatter (Hash_new0 sz u) = 1 \<and>
   maxBuckets (Hash_new1 sz u mb) = (if mb < 1 then 1 else mb) \<and>
   reindexScatter (Hash_new1 sz u mb) = 1 \<and>
   maxBuckets (Hash_new2 sz u mb rs) = (if mb < 1 then 1 else mb) \<and>
   reindexScatter (Hash_new2 sz u mb rs) =
     (if rs < 1 \<or> 256 < uint (maxBuckets (Hash_new2 sz u mb rs)) + uint rs then 1 else rs) \<and>
   uint (maxBuckets (Hash_new0 sz u)) + uint (reindexScatter (Hash_new0 sz u)) \<le> 256 \<and>
   uint (maxBuckets (Hash_new1 sz u mb)) + uint (reindexScatter (Hash_new1 sz u mb)) \<le> 256 \<and>
   uint (maxBuckets (Hash_new2 sz u mb rs)) + uint (reindexScatter (Hash_new2 sz u mb rs)) \<le> 256"
  using uint8_max [of mb] uint8_max [of rs]
  by (simp add: Hash_new0_def Hash_new1_def Hash_new2_def init_def Let_def)

text \<open>
  Claim C9. After each of the three constructors the root \<open>Index\<close> has its 16 slots
  \<open>NULL\<close>, the counters \<open>numKeys\<close>, \<open>metaSize\<close> and \<open>dataSize\<close> are 0 and \<open>indexSize\<close>
  is the size of one \<open>Index\<close>, hence not zero.
\<close>

theorem fresh_table_state:
  assumes "length uninit = BH_INDEX_SIZE" and "sizeof_Index \<noteq> 0"
  shows "\<forall>h \<in> {Hash_new0 sizeof_Index uninit, Hash_new1 sizeof_Index uninit mb,
                Hash_new2 sizeof_Index uninit mb rs}.
           index_type (index h) = BH_SIG_INDEX \<and>
           index_data (index h) = replicate BH_INDEX_SIZE None \<and>
           numKeys (stats h) = 0 \<and> metaSize (stats h) = 0 \<and> dataSize (stats h) = 0 \<and>
           indexSize (stats h) = sizeof_Index \<and> indexSize (stats h) \<noteq> 0"
  using assms
  by (simp add: Hash_new0_def Hash_new1_def Hash_new2_def init_def Let_def Index_new_slots Stats_new_def)

theorem fresh_table_state_witness:
  "length (replicate 16 (Some (TagBucket Bucket_new))) = BH_INDEX_SIZE \<and> (136 :: uint64_t) \<noteq> 0 \<and>
   index_data (index (Hash_new2 136 (replicate 16 (Some (TagBucket Bucket_new))) 0 0)) = replicate 16 None \<and>
   stats (Hash_new2 136 (replicate 16 (Some (TagBucket Bucket_new))) 0 0)
     = \<lparr>numKeys = 0, indexSize = 136, metaSize = 0, dataSize = 0\<rparr>"
  using fresh_table_state [of "replicate 16 (Some (TagBucket Bucket_new))" 136 0 0]
  by (simp add: BH_INDEX_SIZE_def)

section \<open>Chains of well-formed entries\<close>

lemma wf_entry_D:
  assumes "wf_entry e b"
  obtains d kl vl where "bucket_data b = Some d" "bucketGetKeyLength e d = Some kl"
    "bucketGetContentLength e d = Some vl"
    "BH_KLEN_SIZE + unat kl + BH_LEN_SIZE + unat vl \<le> length d"
  using assms by (auto simp add: wf_entry_def split: option.splits)

lemma wf_entry_key_length:
  assumes "wf_entry e b" "bucket_data b = Some d" "bucketGetKeyLength e d = Some kl"
  shows "length (entry_key e b) = unat kl" "entry_key e b = take (unat kl) (drop 2 d)"
  using assms
  by (auto simp add: entry_key_def wf_entry_def bucketGetKey_def ptr_add_def BH_KLEN_SIZE_def
      split: option.splits)

lemma wf_entry_keyEquals:
  assumes "wf_entry e b" and "bucket_data b = Some d" and "unat keyLength \<le> length key"
  shows "bucketKeyEquals e d key keyLength =
           Some (if entry_key e b = take (unat keyLength) key then 1 else 0)"
proof -
  from assms(1,2) obtain kl vl where kl: "bucketGetKeyLength e d = Some kl"
    and vl: "bucketGetContentLength e d = Some vl"
    and len: "BH_KLEN_SIZE + unat kl + BH_LEN_SIZE + unat vl \<le> length d"
    by (auto elim: wf_entry_D)
  have ek: "entry_key e b = take (unat kl) (drop 2 d)" "length (entry_key e b) = unat kl"
    using wf_entry_key_length [OF assms(1,2) kl] by simp_all
  show ?thesis
  proof (cases "keyLength = kl")
    case False
    then have "unat keyLength \<noteq> unat kl" by (simp add: word_unat_eq_iff)
    then have "entry_key e b \<noteq> take (unat keyLength) key"
      using ek(2) assms(3) by (metis length_take min.absorb2)
    with False show ?thesis by (simp add: bucketKeyEquals_def kl)
  next
    case True
    have "unat kl \<le> length (drop 2 d)" using len by (simp add: BH_KLEN_SIZE_def)
    then have "memcmp key (ptr_add d BH_KLEN_SIZE) (unat kl) =
                 Some (cmp_bytes (take (unat kl) key) (take (unat kl) (drop 2 d)))"
      using assms(3) True by (simp add: memcmp_def ptr_add_def BH_KLEN_SIZE_def)
    moreover have "cmp_bytes (take (unat kl) key) (take (unat kl) (drop 2 d)) = 0
                     \<longleftrightarrow> take (unat kl) key = take (unat kl) (drop 2 d)"
      using assms(3) True \<open>unat kl \<le> length (drop 2 d)\<close> by (simp add: cmp_bytes_eq_0)
    ultimately show ?thesis
      using True ek(1) by (auto simp add: bucketKeyEquals_def kl)
  qed
qed

lemma chain_fetch_find:
  assumes "\<forall>b \<in> set bs. wf_entry e b" and "unat keyLength \<le> length key"
  shows "chain_fetch e bs key keyLength =
           Some (find (\<lambda>b. entry_key e b = take (unat keyLength) key) bs)"
  using assms(1)
proof (induction bs)
  case Nil
  then show ?case by simp
next
  case (Cons b bs)
  then have wf: "wf_entry e b" by simp
  then obtain d where d: "bucket_data b = Some d" by (auto elim: wf_entry_D)
  show ?case
    using Cons wf_entry_keyEquals [OF wf d assms(2)] by (simp add: d)
qed

lemma find_filter:
  "(\<And>x. x \<in> set xs \<Longrightarrow> P x \<Longrightarrow> Q x) \<Longrightarrow> find P (filter Q xs) = find P xs"
  by (induction xs) auto

lemma chain_list_list_chain:
  "\<forall>b \<in> set bs. bucket_next b = None \<Longrightarrow> chain_list (list_chain bs) = bs"
proof (induction bs)
  case Nil
  then show ?case by simp
next
  case (Cons b bs)
  then show ?case by (cases b) simp
qed

lemma chain_list_detached: "b \<in> set (chain_list c) \<Longrightarrow> bucket_next b = None"
  by (induction c rule: chain_list.induct) auto

lemma wf_entry_data_cong:
  "bucket_data b = bucket_data b' \<Longrightarrow> wf_entry e b = wf_entry e b'"
  by (simp add: wf_entry_def)

lemma entry_key_data_cong:
  "bucket_data b = bucket_data b' \<Longrightarrow> entry_key e b = entry_key e b'"
  by (simp add: entry_key_def)

lemma chain_store_fetch:
  assumes "\<forall>b \<in> set bs. wf_entry e b" and "unat keyLength \<le> length key"
    and "wf_entry e new" and "entry_key e new = take (unat keyLength) key"
  shows "\<exists>bs' old. chain_store e bs key keyLength new = Some (bs', old) \<and>
           (\<forall>b \<in> set bs'. wf_entry e b) \<and>
           (\<exists>b'. find (\<lambda>b. entry_key e b = take (unat keyLength) key) bs' = Some b' \<and>
                 bucket_data b' = bucket_data new \<and> bucket_flags b' = bucket_flags new) \<and>
           (\<forall>b. old = Some b \<longrightarrow> wf_entry e b)"
  using assms(1)
proof (induction bs)
  case Nil
  then show ?case using assms(3,4) by simp
next
  case (Cons b bs)
  then have wf: "wf_entry e b" by simp
  then obtain d where d: "bucket_data b = Some d" by (auto elim: wf_entry_D)
  note eq = wf_entry_keyEquals [OF wf d assms(2)]
  show ?case
  proof (cases "entry_key e b = take (unat keyLength) key")
    case True
    let ?r = "Bucket (bucket_type b) (bucket_flags new) (bucket_data new) None"
    have "wf_entry e ?r" "entry_key e ?r = take (unat keyLength) key"
      using assms(3,4) wf_entry_data_cong [of ?r new e] entry_key_data_cong [of ?r new e] by simp_all
    with True Cons.prems wf show ?thesis by (simp add: d eq)
  next
    case False
    from Cons obtain bs' old where
      "chain_store e bs key keyLength new = Some (bs', old)"
      "\<forall>b \<in> set bs'. wf_entry e b"
      "\<exists>b'. find (\<lambda>b. entry_key e b = take (unat keyLength) key) bs' = Some b' \<and>
                 bucket_data b' = bucket_data new \<and> bucket_flags b' = bucket_flags new"
      "\<forall>b. old = Some b \<longrightarrow> wf_entry e b"
      by auto
    with False wf show ?thesis by (simp add: d eq)
  qed
qed

lemma chain_store_detached:
  "chain_store e bs key keyLength new = Some (bs', old) \<Longrightarrow>
   \<forall>b \<in> set bs. bucket_next b = None \<Longrightarrow> bucket_next new = None \<Longrightarrow>
   \<forall>b \<in> set bs'. bucket_next b = None"
  by (induction bs arbitrary: bs' old) (auto split: option.splits if_splits)

section \<open>Reindexing keeps every entry reachable\<close>

lemma probe_digest:
  assumes "unat keyLength \<le> length key"
  shows "digestKey e key keyLength (replicate BH_DIGEST_SIZE 0) =
           Some (spec_digest e (take (unat keyLength) key))"
  using digestKey_general [OF assms, of "replicate BH_DIGEST_SIZE 0" e] by simp

lemma entry_symbol_eq:
  assumes "wf_entry e b"
  shows "entry_symbol e depth b = Some (unat (spec_digest e (entry_key e b) ! depth))"
proof -
  from assms obtain d kl vl where d: "bucket_data b = Some d"
    and kl: "bucketGetKeyLength e d = Some kl"
    and vl: "bucketGetContentLength e d = Some vl"
    and len: "BH_KLEN_SIZE + unat kl + BH_LEN_SIZE + unat vl \<le> length d"
    by (rule wf_entry_D)
  have "unat kl \<le> length (bucketGetKey d)"
    using len by (simp add: bucketGetKey_def ptr_add_def)
  from probe_digest [OF this, of e] show ?thesis
    by (simp add: entry_symbol_def entry_key_def d kl)
qed

lemma key_symbol_less: "depth < BH_DIGEST_SIZE \<Longrightarrow> key_symbol e depth b < BH_INDEX_SIZE"
  using spec_digest_range [of "spec_digest e (entry_key e b) ! depth" e "entry_key e b"]
  by (simp add: key_symbol_def spec_digest_length BH_DIGEST_SIZE_def BH_INDEX_SIZE_def)

lemma distribute_filter:
  assumes "\<forall>b \<in> set bs. wf_entry e b" and "depth < BH_DIGEST_SIZE"
    and "length slots = BH_INDEX_SIZE"
  shows "distribute e depth bs slots =
           Some (map (\<lambda>s. slots ! s @ filter (\<lambda>b. key_symbol e depth b = s) bs) [0..<BH_INDEX_SIZE])"
  using assms(1,3)
proof (induction bs arbitrary: slots)
  case Nil
  have "map (\<lambda>s. slots ! s) [0..<length slots] = slots" by (rule map_nth)
  with Nil show ?case by simp
next
  case (Cons b bs)
  let ?s = "key_symbol e depth b"
  let ?slots = "slots[?s := slots ! ?s @ [b]]"
  have s: "?s < BH_INDEX_SIZE" using key_symbol_less [OF assms(2)] .
  have "distribute e depth (b # bs) slots = distribute e depth bs ?slots"
    using Cons.prems entry_symbol_eq [of e b depth] by (simp add: key_symbol_def)
  also have "\<dots> = Some (map (\<lambda>s. ?slots ! s @ filter (\<lambda>b. key_symbol e depth b = s) bs) [0..<BH_INDEX_SIZE])"
    using Cons by simp
  also have "map (\<lambda>s. ?slots ! s @ filter (\<lambda>b. key_symbol e depth b = s) bs) [0..<BH_INDEX_SIZE]
             = map (\<lambda>s. slots ! s @ filter (\<lambda>b. key_symbol e depth b = s) (b # bs)) [0..<BH_INDEX_SIZE]"
    using Cons.prems(2) by (auto simp add: nth_list_update)
  finally show ?case .
qed

lemma fetch_walk_slot:
  "fetch_walk e digest key keyLength depth ix =
     (if depth < BH_DIGEST_SIZE \<and> depth < length digest \<and>
         unat (digest ! depth) < length (index_data ix)
      then slot_fetch e digest key keyLength depth (index_data ix ! unat (digest ! depth))
      else None)"
  by (subst fetch_walk.simps) (simp add: slot_fetch_def Let_def)

lemma wf_index_slot:
  "wf_index e depth ix \<longleftrightarrow>
     depth < BH_DIGEST_SIZE \<and> length (index_data ix) = BH_INDEX_SIZE \<and>
     (\<forall>slot \<in> set (index_data ix). slot_wf e depth slot)"
  by (subst wf_index.simps) (simp add: slot_wf_def)

lemma chain_tag_cases:
  assumes "\<forall>b \<in> set c. bucket_next b = None"
  shows "(c = [] \<and> chain_tag c = None) \<or>
         (\<exists>h. chain_tag c = Some (TagBucket h) \<and> chain_list (Some h) = c)"
proof (cases c)
  case Nil
  then show ?thesis by (simp add: chain_tag_def)
next
  case (Cons b bs)
  have "chain_list (list_chain c) = c" using assms by (rule chain_list_list_chain)
  with Cons show ?thesis by (auto simp add: chain_tag_def)
qed

lemma chain_tag_slot:
  assumes "\<forall>b \<in> set c. ok_entry e b" and "unat keyLength \<le> length key"
  shows "slot_wf e depth (chain_tag c)"
    and "slot_fetch e digest key keyLength depth (chain_tag c) =
           Some (find (\<lambda>b. entry_key e b = take (unat keyLength) key) c)"
proof -
  have d: "\<forall>b \<in> set c. bucket_next b = None" and w: "\<forall>b \<in> set c. wf_entry e b"
    using assms(1) by (simp_all add: ok_entry_def)
  from chain_tag_cases [OF d] show "slot_wf e depth (chain_tag c)"
    using w by (auto simp add: slot_wf_def)
  from chain_tag_cases [OF d]
  show "slot_fetch e digest key keyLength depth (chain_tag c) =
           Some (find (\<lambda>b. entry_key e b = take (unat keyLength) key) c)"
    using chain_fetch_find [OF w assms(2)] by (auto simp add: slot_fetch_def)
qed

lemma digest_symbol_less:
  "depth < BH_DIGEST_SIZE \<Longrightarrow> unat (spec_digest e k ! depth) < BH_INDEX_SIZE"
  using spec_digest_range [of "spec_digest e k ! depth" e k]
  by (simp add: spec_digest_length BH_DIGEST_SIZE_def BH_INDEX_SIZE_def)

lemma reindex_fetch:
  assumes kl: "unat keyLength \<le> length key"
  shows "depth < BH_DIGEST_SIZE \<Longrightarrow> \<forall>b \<in> set bs. ok_entry e b \<Longrightarrow>
         \<exists>ix n. reindex e mb depth bs = Some (ix, n) \<and> wf_index e depth ix \<and>
           fetch_walk e (spec_digest e (take (unat keyLength) key)) key keyLength depth ix =
             Some (find (\<lambda>b. entry_key e b = take (unat keyLength) key) bs)"
proof (induction "BH_DIGEST_SIZE - depth" arbitrary: depth bs)
  case 0
  then show ?case by simp
next
  case (Suc k)
  let ?dg = "spec_digest e (take (unat keyLength) key)"
  let ?P = "\<lambda>b. entry_key e b = take (unat keyLength) key"
  define slots where "slots = map (\<lambda>s. filter (\<lambda>b. key_symbol e depth b = s) bs) [0..<BH_INDEX_SIZE]"
  define f where "f = (\<lambda>c. if mb < length c \<and> depth + 1 < BH_DIGEST_SIZE
                  then (case reindex e mb (depth + 1) c of
                          None \<Rightarrow> None
                        | Some (ix, n) \<Rightarrow> Some (Some (TagIndex ix), n))
                  else Some (chain_tag c, 0))"
  have wf: "\<forall>b \<in> set bs. wf_entry e b" using Suc.prems(2) by (simp add: ok_entry_def)
  have dist: "distribute e depth bs (replicate BH_INDEX_SIZE []) = Some slots"
    using distribute_filter [OF wf Suc.prems(1), of "replicate BH_INDEX_SIZE []"]
    by (simp add: slots_def cong: map_cong)
  have slot: "\<exists>t n. f c = Some (t, n) \<and> slot_wf e depth t \<and>
                slot_fetch e ?dg key keyLength depth t = Some (find ?P c)"
    if c: "\<forall>b \<in> set c. ok_entry e b" for c
  proof (cases "mb < length c \<and> depth + 1 < BH_DIGEST_SIZE")
    case True
    then have "k = BH_DIGEST_SIZE - (depth + 1)" using Suc.hyps(2) by simp
    from Suc.hyps(1) [OF this _ c] True
    obtain ix n where "reindex e mb (depth + 1) c = Some (ix, n)" "wf_index e (depth + 1) ix"
      "fetch_walk e ?dg key keyLength (depth + 1) ix = Some (find ?P c)"
      by auto
    with True show ?thesis by (simp add: f_def slot_wf_def slot_fetch_def)
  next
    case False
    then have "f c = Some (chain_tag c, 0)" by (auto simp add: f_def)
    with chain_tag_slot [OF c kl] show ?thesis by simp
  qed
  have slots_ok: "\<forall>b \<in> set c. ok_entry e b" if "c \<in> set slots" for c
    using that Suc.prems(2) by (auto simp add: slots_def)
  have none: "None \<notin> set (map f slots)"
  proof
    assume "None \<in> set (map f slots)"
    then obtain c where "c \<in> set slots" "None = f c"
      unfolding set_map by (rule imageE)
    with slot [OF slots_ok, of c] show False by auto
  qed
  define ix where "ix = Index BH_SIG_INDEX (map (fst \<circ> the) (map f slots))"
  define n where "n = 1 + sum_list (map (snd \<circ> the) (map f slots))"
  have re: "reindex e mb depth bs = Some (ix, n)"
    using none by (subst reindex.simps) (simp add: dist Let_def f_def ix_def n_def)
  have data: "index_data ix = map (\<lambda>c. fst (the (f c))) slots"
    by (simp add: ix_def o_def)
  have "slot_wf e depth t" if "t \<in> set (index_data ix)" for t
  proof -
    from that obtain c where "c \<in> set slots" "t = fst (the (f c))"
      unfolding data set_map by (rule imageE)
    with slot [OF slots_ok, of c] show ?thesis by auto
  qed
  moreover have "length (index_data ix) = BH_INDEX_SIZE"
    by (simp add: data slots_def)
  ultimately have wfix: "wf_index e depth ix"
    using Suc.prems(1) by (simp add: wf_index_slot)
  define s where "s = unat (?dg ! depth)"
  have s: "s < BH_INDEX_SIZE" unfolding s_def using digest_symbol_less [OF Suc.prems(1)] .
  define c where "c = filter (\<lambda>b. key_symbol e depth b = s) bs"
  have c_ok: "\<forall>b \<in> set c. ok_entry e b" using Suc.prems(2) by (simp add: c_def)
  have "index_data ix ! s = fst (the (f c))"
    using s by (simp add: data slots_def c_def)
  moreover from slot [OF c_ok]
  have "slot_fetch e ?dg key keyLength depth (fst (the (f c))) = Some (find ?P c)"
    by auto
  moreover have "find ?P c = find ?P bs"
    unfolding c_def by (rule find_filter) (simp add: key_symbol_def s_def)
  moreover have "depth < length ?dg"
    using Suc.prems(1) by (simp add: spec_digest_length BH_DIGEST_SIZE_def)
  ultimately have "fetch_walk e ?dg key keyLength depth ix = Some (find ?P bs)"
    using s Suc.prems(1) \<open>length (index_data ix) = BH_INDEX_SIZE\<close>
    by (simp add: fetch_walk_slot s_def [symmetric])
  with re wfix show ?case by blast
qed

section \<open>fetch after store\<close>

lemma store_walk_slot:
  "store_walk e mb digest key keyLength new depth ix =
     (if depth < BH_DIGEST_SIZE \<and> depth < length digest \<and>
         unat (digest ! depth) < length (index_data ix)
      then (case slot_store e mb digest key keyLength new depth
                   (index_data ix ! unat (digest ! depth)) of
              None \<Rightarrow> None
            | Some (t, out) \<Rightarrow>
                Some (Index (index_type ix) ((index_data ix)[unat (digest ! depth) := t]), out))
      else None)"
  by (subst store_walk.simps)
     (auto simp add: slot_store_def Let_def split: option.split Tag.split)

lemma store_walk_fetch:
  assumes kl: "unat keyLength \<le> length key"
    and new: "ok_entry e new" "entry_key e new = take (unat keyLength) key"
  shows "wf_index e depth ix \<Longrightarrow>
         \<exists>ix' out. store_walk e mb (spec_digest e (take (unat keyLength) key)) key keyLength new depth ix
                      = Some (ix', out) \<and>
           wf_index e depth ix' \<and>
           (\<exists>b'. fetch_walk e (spec_digest e (take (unat keyLength) key)) key keyLength depth ix'
                    = Some (Some b') \<and>
                 bucket_data b' = bucket_data new \<and> bucket_flags b' = bucket_flags new) \<and>
           (\<forall>old. out = Replaced old \<longrightarrow> wf_entry e old)"
proof (induction "BH_DIGEST_SIZE - depth" arbitrary: depth ix)
  case 0
  then show ?case by (simp add: wf_index_slot)
next
  case (Suc k)
  let ?dg = "spec_digest e (take (unat keyLength) key)"
  let ?P = "\<lambda>b. entry_key e b = take (unat keyLength) key"
  define good where "good = (\<lambda>t. slot_wf e depth t \<and>
      (\<exists>b'. slot_fetch e ?dg key keyLength depth t = Some (Some b') \<and>
            bucket_data b' = bucket_data new \<and> bucket_flags b' = bucket_flags new))"
  from Suc.prems have depth: "depth < BH_DIGEST_SIZE"
    and len: "length (index_data ix) = BH_INDEX_SIZE"
    and slots: "\<forall>slot \<in> set (index_data ix). slot_wf e depth slot"
    by (simp_all add: wf_index_slot)
  have wfnew: "wf_entry e new" and dnew: "bucket_next new = None"
    using new(1) by (simp_all add: ok_entry_def)
  have good_chain: "good (chain_tag c)"
    if "\<forall>b \<in> set c. ok_entry e b"
      and "\<exists>b'. find ?P c = Some b' \<and> bucket_data b' = bucket_data new \<and>
                 bucket_flags b' = bucket_flags new" for c
    using chain_tag_slot [OF that(1) kl] that(2) by (simp add: good_def)
  have slot: "\<exists>t out. slot_store e mb ?dg key keyLength new depth slot = Some (t, out) \<and> good t \<and>
                (\<forall>old. out = Replaced old \<longrightarrow> wf_entry e old)"
    if sw: "slot_wf e depth slot" for slot
  proof (cases slot)
    case None
    have "good (chain_tag [new])"
      using new by (intro good_chain) simp_all
    with None show ?thesis by (simp add: slot_store_def)
  next
    case (Some tag)
    show ?thesis
    proof (cases tag)
      case (TagBucket h)
      define c where "c = chain_list (Some h)"
      have cwf: "\<forall>b \<in> set c. wf_entry e b"
        using sw Some TagBucket by (simp add: slot_wf_def c_def)
      have cdet: "\<forall>b \<in> set c. bucket_next b = None"
        unfolding c_def using chain_list_detached by blast
      from chain_store_fetch [OF cwf kl wfnew new(2)]
      obtain c' old where st: "chain_store e c key keyLength new = Some (c', old)"
        and c'wf: "\<forall>b \<in> set c'. wf_entry e b"
        and found: "\<exists>b'. find ?P c' = Some b' \<and> bucket_data b' = bucket_data new \<and>
                       bucket_flags b' = bucket_flags new"
        and oldwf: "\<forall>b. old = Some b \<longrightarrow> wf_entry e b"
        by blast
      have c'ok: "\<forall>b \<in> set c'. ok_entry e b"
        using c'wf chain_store_detached [OF st cdet dnew] by (simp add: ok_entry_def)
      have gc: "good (chain_tag c')" using c'ok found by (rule good_chain)
      show ?thesis
      proof (cases old)
        case (Some b)
        with st gc oldwf Some \<open>slot = Some tag\<close> TagBucket show ?thesis
          by (simp add: slot_store_def c_def [symmetric])
      next
        case None
        show ?thesis
        proof (cases "mb < length c' \<and> depth + 1 < BH_DIGEST_SIZE")
          case True
          then have d1: "depth + 1 < BH_DIGEST_SIZE" by simp
          from reindex_fetch [OF kl d1 c'ok, of mb]
          obtain ix' n where re: "reindex e mb (depth + 1) c' = Some (ix', n)"
            and "wf_index e (depth + 1) ix'"
            and "fetch_walk e ?dg key keyLength (depth + 1) ix' = Some (find ?P c')"
            by blast
          with found d1 have "good (Some (TagIndex ix'))"
            by (auto simp add: good_def slot_wf_def slot_fetch_def)
          with True None st re \<open>slot = Some tag\<close> TagBucket show ?thesis
            by (simp add: slot_store_def c_def [symmetric])
        next
          case False
          with None st gc \<open>slot = Some tag\<close> TagBucket show ?thesis
            by (auto simp add: slot_store_def c_def [symmetric])
        qed
      qed
    next
      case (TagIndex sub)
      with sw Some have d1: "depth + 1 < BH_DIGEST_SIZE" and sub: "wf_index e (depth + 1) sub"
        by (simp_all add: slot_wf_def split: if_splits)
      have "k = BH_DIGEST_SIZE - (depth + 1)" using Suc.hyps(2) by simp
      from Suc.hyps(1) [OF this sub]
      obtain sub' out where "store_walk e mb ?dg key keyLength new (depth + 1) sub = Some (sub', out)"
        and "wf_index e (depth + 1) sub'"
        and "\<exists>b'. fetch_walk e ?dg key keyLength (depth + 1) sub' = Some (Some b') \<and>
                 bucket_data b' = bucket_data new \<and> bucket_flags b' = bucket_flags new"
        and "\<forall>old. out = Replaced old \<longrightarrow> wf_entry e old"
        by blast
      with d1 Some TagIndex show ?thesis
        by (simp add: slot_store_def good_def slot_wf_def slot_fetch_def)
    qed
  qed
  define s where "s = unat (?dg ! depth)"
  have s: "s < length (index_data ix)"
    unfolding s_def len using digest_symbol_less [OF depth] .
  have dl: "depth < length ?dg"
    using depth by (simp add: spec_digest_length BH_DIGEST_SIZE_def)
  have "slot_wf e depth (index_data ix ! s)" using slots s by simp
  from slot [OF this]
  obtain t out where ss: "slot_store e mb ?dg key keyLength new depth (index_data ix ! s) = Some (t, out)"
    and gt: "good t" and ow: "\<forall>old. out = Replaced old \<longrightarrow> wf_entry e old"
    by blast
  define ix' where "ix' = Index (index_type ix) ((index_data ix)[s := t])"
  have sw: "store_walk e mb ?dg key keyLength new depth ix = Some (ix', out)"
    using depth dl s ss by (simp add: store_walk_slot s_def [symmetric] ix'_def)
  have "\<forall>slot \<in> set (index_data ix'). slot_wf e depth slot"
    using slots gt set_update_subset_insert [of "index_data ix" s t]
    by (auto simp add: ix'_def good_def)
  then have wf': "wf_index e depth ix'"
    using depth len by (simp add: wf_index_slot ix'_def)
  have "fetch_walk e ?dg key keyLength depth ix' = slot_fetch e ?dg key keyLength depth t"
    using depth dl s by (simp add: fetch_walk_slot s_def [symmetric] ix'_def)
  with gt sw wf' ow show ?case by (auto simp add: good_def)
qed

lemma new_entry_ok:
  assumes "unat keyLength \<le> length key" and "unat contentLength' \<le> length content'"
  obtains new where "new_entry e key keyLength content' contentLength' flags' = Some new"
    and "ok_entry e new" and "entry_key e new = take (unat keyLength) key"
    and "bucket_flags new = flags'"
    and "bucket_data new = Some (entry_blob e keyLength (take (unat keyLength) key)
                                   contentLength' (take (unat contentLength') content'))"
proof -
  let ?k = "take (unat keyLength) key" and ?v = "take (unat contentLength') content'"
  let ?d = "entry_blob e keyLength ?k contentLength' ?v"
  let ?new = "Bucket (bucket_type Bucket_new) flags' (Some ?d) (bucket_next Bucket_new)"
  have k: "length ?k = unat keyLength" and v: "length ?v = unat contentLength'"
    using assms by simp_all
  have 1: "bucketGetKeyLength e ?d = Some keyLength"
    using blob_key_length [of e keyLength ?k contentLength' ?v "[]"] by simp
  have 2: "bucketGetContentLength e ?d = Some contentLength'"
    using blob_content_length [OF k, of e contentLength' ?v "[]"] by simp
  have 3: "bucketGetKey ?d = ?k @ object_bytes e BH_LEN_SIZE contentLength' @ ?v"
    using blob_key [of e keyLength ?k contentLength' ?v "[]"] by simp
  have 4: "length ?d = BH_KLEN_SIZE + unat keyLength + BH_LEN_SIZE + unat contentLength'"
    using k v by (simp add: entry_blob_def)
  have "new_entry e key keyLength content' contentLength' flags' = Some ?new"
    using assms by (simp add: new_entry_def)
  moreover have "ok_entry e ?new"
    by (simp add: ok_entry_def wf_entry_def 1 2 4 Bucket_new_def)
  moreover have "entry_key e ?new = ?k"
    using k by (simp add: entry_key_def 1 3)
  ultimately show thesis
    using that [of ?new] by simp
qed

lemma store_fetch_general:
  assumes wf: "wf_Hash e h"
    and kl: "unat keyLength \<le> length key" and cl: "unat contentLength' \<le> length content'"
  shows "\<exists>h' r. store e sizeof_Index entry_overhead h key keyLength content' contentLength' flags'
                   = Some (h', r) \<and>
           (result r = BH_ADD \<or> result r = BH_REPLACE) \<and> wf_Hash e h' \<and>
           fetch e h' key keyLength =
             Some \<lparr>result = BH_OK, flags = flags',
                   content = Some (take (unat contentLength') content'),
                   contentLength = contentLength'\<rparr>"
proof -
  let ?dg = "spec_digest e (take (unat keyLength) key)"
  let ?k = "take (unat keyLength) key" and ?v = "take (unat contentLength') content'"
  let ?d = "entry_blob e keyLength ?k contentLength' ?v"
  note dg = probe_digest [OF kl, of e]
  from new_entry_ok [OF kl cl, of e flags']
  obtain new where new: "new_entry e key keyLength content' contentLength' flags' = Some new"
    and ok: "ok_entry e new" and key: "entry_key e new = ?k"
    and fl: "bucket_flags new = flags'" and data: "bucket_data new = Some ?d"
    by blast
  from store_walk_fetch [OF kl ok key, of 0 "index h" "unat (maxBuckets h)"] wf
  obtain ix out b' where sw: "store_walk e (unat (maxBuckets h)) ?dg key keyLength new 0 (index h)
                                = Some (ix, out)"
    and wfix: "wf_index e 0 ix"
    and fw: "fetch_walk e ?dg key keyLength 0 ix = Some (Some b')"
    and b': "bucket_data b' = bucket_data new" "bucket_flags b' = bucket_flags new"
    and old: "\<forall>old. out = Replaced old \<longrightarrow> wf_entry e old"
    unfolding wf_Hash_def by blast
  have len: "length ?k = unat keyLength" using kl by simp
  have c1: "bucketGetContent e ?d = Some ?v"
    using blob_content [OF len, of e contentLength' ?v "[]"] by simp
  have c2: "bucketGetContentLength e ?d = Some contentLength'"
    using blob_content_length [OF len, of e contentLength' ?v "[]"] by simp
  have fetch: "fetch e h' key keyLength =
             Some \<lparr>result = BH_OK, flags = flags', content = Some ?v,
                   contentLength = contentLength'\<rparr>" if "index h' = ix" for h'
    using that by (simp add: fetch_def dg fw b' data fl c1 c2)
  show ?thesis
  proof (cases out)
    case (Added n)
    then show ?thesis
      using fetch wfix
      by (simp add: store_def dg new sw wf_Hash_def Response_new_def)
  next
    case (Replaced b)
    with old have "wf_entry e b" by simp
    then obtain d vl where "bucket_data b = Some d" "bucketGetContentLength e d = Some vl"
      by (auto elim: wf_entry_D)
    with Replaced show ?thesis
      using fetch wfix
      by (simp add: store_def dg new sw wf_Hash_def Response_new_def)
  qed
qed

lemma unat_len32: "n < 2 ^ 32 \<Longrightarrow> unat (word_of_nat n :: BH_LEN_T) = n"
  by (simp add: unat_of_nat)

text \<open>
  The invariant is not an empty hypothesis: the three constructors establish it and
  \<open>store\<close> keeps it.
\<close>

lemma wf_Hash_new:
  assumes "length uninit = BH_INDEX_SIZE"
  shows "wf_Hash e (Hash_new0 sizeof_Index uninit)"
    and "wf_Hash e (Hash_new1 sizeof_Index uninit mb)"
    and "wf_Hash e (Hash_new2 sizeof_Index uninit mb rs)"
  using assms
  by (simp_all add: wf_Hash_def Hash_new0_def Hash_new1_def Hash_new2_def init_def Let_def
      Index_new_slots wf_index_slot slot_wf_def BH_DIGEST_SIZE_def)

lemma store_preserves_wf:
  assumes "wf_Hash e h" and "unat keyLength \<le> length key"
    and "unat contentLength' \<le> length content'"
    and "store e sizeof_Index entry_overhead h key keyLength content' contentLength' flags'
           = Some (h', r)"
  shows "wf_Hash e h'"
  using store_fetch_general [OF assms(1-3), of sizeof_Index entry_overhead flags'] assms(4)
  by auto

text \<open>
  Claim C1. On a table that satisfies the invariant, for every key of at most 65535
  bytes and every value of less than \<open>2^32\<close> bytes, \<open>store\<close> returns with the status added
  or replaced, and \<open>fetch\<close> of the same key on the table it leaves returns the status ok,
  the stored flags, a content equal to the value byte for byte and its length as the
  content length. \<open>store\<close> and \<open>fetch\<close> are modelled from the specification; the digest,
  the key comparison and the accessors are the header's.
\<close>

theorem store_fetch_roundtrip:
  assumes "wf_Hash e h" and "length key \<le> 65535" and "length content' < 2 ^ 32"
  shows "\<exists>h' r. store e sizeof_Index entry_overhead h key (word_of_nat (length key))
                   content' (word_of_nat (length content')) flags' = Some (h', r) \<and>
           (result r = BH_ADD \<or> result r = BH_REPLACE) \<and>
           fetch e h' key (word_of_nat (length key)) =
             Some \<lparr>result = BH_OK, flags = flags', content = Some content',
                   contentLength = word_of_nat (length content')\<rparr> \<and>
           unat (word_of_nat (length content') :: BH_LEN_T) = length content'"
  using store_fetch_general [of e h "word_of_nat (length key)" key
      "word_of_nat (length content')" content' sizeof_Index entry_overhead flags'] assms
  by (auto simp add: unat_klen unat_len32)

theorem store_fetch_roundtrip_witness:
  "wf_Hash LittleEndian (Hash_new0 136 (replicate 16 None)) \<and>
   length [97 :: uint8_t] \<le> 65535 \<and> length [49 :: uint8_t] < 2 ^ 32 \<and>
   (\<exists>h' r. store LittleEndian 136 24 (Hash_new0 136 (replicate 16 None)) [97] 1 [49] 1 0
              = Some (h', r) \<and>
           fetch LittleEndian h' [97] 1 =
             Some \<lparr>result = BH_OK, flags = 0, content = Some [49], contentLength = 1\<rparr>)"
  using store_fetch_roundtrip [of LittleEndian "Hash_new0 136 (replicate 16 None)" "[97]" "[49]" 136 24 0]
    wf_Hash_new(1) [of "replicate 16 None" LittleEndian 136]
  by (auto simp add: BH_INDEX_SIZE_def)

section \<open>Lengths out of range and the error statuses\<close>



end
